theory Spec2Isabelle
  imports Main "HOL-Library.AList" "HOL-Library.Sublist" "HOL-Library.Multiset"
begin

section \<open>Go maps and their iteration order\<close>

text \<open>
  A Go map is an association list read through \<open>map_of\<close>: the first pair of a key
  is the one that counts. Maps built by the program itself (from \<open>make\<close>, by
  assignment and \<open>delete\<close>) have distinct keys.
\<close>

type_synonym ('k, 'v) gomap = "('k \<times> 'v) list"

definition map_make :: "('k, 'v) gomap" where
  "map_make = []"

definition map_set :: "'k \<Rightarrow> 'v \<Rightarrow> ('k, 'v) gomap \<Rightarrow> ('k, 'v) gomap" where
  \<comment> \<open>\<open>m[k] = v\<close>\<close>
  "map_set k v m = AList.update k v m"

definition map_delete :: "'k \<Rightarrow> ('k, 'v) gomap \<Rightarrow> ('k, 'v) gomap" where
  \<comment> \<open>\<open>delete(m, k)\<close>\<close>
  "map_delete k m = AList.delete k m"

definition map_entries :: "('k, 'v) gomap \<Rightarrow> ('k \<times> 'v) list" where
  "map_entries m = AList.clearjunk m"

definition map_keys :: "('k, 'v) gomap \<Rightarrow> 'k list" where
  "map_keys m = map fst (map_entries m)"

definition map_len :: "('k, 'v) gomap \<Rightarrow> nat" where
  \<comment> \<open>\<open>len(m)\<close>: the number of keys\<close>
  "map_len m = length (map_entries m)"

definition map_bool :: "('k, bool) gomap \<Rightarrow> 'k \<Rightarrow> bool" where
  \<comment> \<open>\<open>m[k]\<close> on a \<open>map[string]bool\<close>: the zero value \<open>false\<close> for a key that is absent\<close>
  "map_bool m k = (case map_of m k of Some b \<Rightarrow> b | None \<Rightarrow> False)"

text \<open>
  Go leaves the order of \<open>range\<close> over a map unspecified. The order is a parameter
  of the model: a choice sequence that picks, at each step, which of the entries
  not yet visited comes next. Every choice sequence gives a permutation of the
  entries, and every permutation is given by some choice sequence.
\<close>

fun pick_order :: "nat list \<Rightarrow> 'a list \<Rightarrow> 'a list" where
  "pick_order [] xs = xs"
| "pick_order (n # ns) xs =
     (if xs = [] then []
      else let i = n mod length xs
           in xs ! i # pick_order ns (take i xs @ drop (Suc i) xs))"

definition range_entries :: "nat list \<Rightarrow> ('k, 'v) gomap \<Rightarrow> ('k \<times> 'v) list" where
  \<comment> \<open>\<open>for k, v := range m\<close>\<close>
  "range_entries ns m = pick_order ns (map_entries m)"

definition range_keys :: "nat list \<Rightarrow> ('k, 'v) gomap \<Rightarrow> 'k list" where
  \<comment> \<open>\<open>for k := range m\<close>\<close>
  "range_keys ns m = map fst (range_entries ns m)"

text \<open>One choice sequence for each \<open>range\<close> over a map in \<open>lock.go\<close>.\<close>

record MapOrder =
  ord_constraints :: "nat list"  \<comment> \<open>line 93, \<open>m.DependencyConstraints()\<close>\<close>
  ord_imports :: "nat list"      \<comment> \<open>line 99, \<open>imports\<close>\<close>
  ord_req :: "nat list"          \<comment> \<open>line 146, \<open>req\<close>\<close>
  ord_ininputs :: "nat list"     \<comment> \<open>line 159, \<open>ininputs\<close>\<close>
  ord_inlock :: "nat list"       \<comment> \<open>line 174, \<open>inlock\<close>\<close>
  ord_pkgDiff :: "nat list"      \<comment> \<open>line 180, \<open>pkgDiff\<close>\<close>

section \<open>The data of package \<open>gps\<close> that \<open>lock.go\<close> reads\<close>

text \<open>
  Versions (\<open>'v\<close>), constraints (\<open>'c\<close>) and ignore rulesets (\<open>'ig\<close>) are opaque. The one
  operation on a constraint, \<open>Constraint.Matches\<close>, is a parameter
  \<open>Matches :: 'c \<Rightarrow> 'v \<Rightarrow> bool\<close> of the functions below. An interface value or a
  pointer that may be \<open>nil\<close> is an \<open>option\<close>.
\<close>

type_synonym ProjectRoot = string

record ProjectIdentifier =
  ProjectRoot :: ProjectRoot

record 'v LockedProject =
  Ident :: ProjectIdentifier
  Version :: 'v

record 'c ProjectProperties =
  Constraint :: 'c

type_synonym 'c ProjectConstraints = "(ProjectRoot, 'c ProjectProperties) gomap"

record 'v LockWithImports =
  Projects :: "'v LockedProject list"
  InputImports :: "string list"

record ('c, 'ig) RootManifest =
  DependencyConstraints :: "'c ProjectConstraints"
  Overrides :: "'c ProjectConstraints"
  IgnoredPackages :: "'ig option"
  RequiredPackages :: "(string, bool) gomap"

text \<open>
  The package tree is read through one query only:
  \<open>rpt.ToReachMap(true, true, false, ig)\<close> followed by
  \<open>FlattenFn(paths.IsStandardImportPath)\<close>, a slice of import paths. The tree is
  that query, as a function of the ignore ruleset.
\<close>

type_synonym 'ig PackageTree = "'ig option \<Rightarrow> string list"

section \<open>The result\<close>

datatype error = NilPointerDereference

record ('c, 'v) ConstraintMismatch =
  CM_C :: 'c
  CM_V :: 'v

record ('c, 'v) LockSatisfaction =
  nolock :: bool
  missingPkgs :: "string list"
  excessPkgs :: "string list"
  badovr :: "(ProjectRoot, ('c, 'v) ConstraintMismatch) gomap"
  badconstraint :: "(ProjectRoot, ('c, 'v) ConstraintMismatch) gomap"

definition Passed :: "('c, 'v) LockSatisfaction \<Rightarrow> bool" where
  "Passed ls =
     (if nolock ls then False
      else if length (missingPkgs ls) > 0 then False
      else if length (excessPkgs ls) > 0 then False
      else if map_len (badovr ls) > 0 then False
      else if map_len (badconstraint ls) > 0 then False
      else True)"

definition MissingImports :: "('c, 'v) LockSatisfaction \<Rightarrow> string list" where
  "MissingImports ls = missingPkgs ls"

definition ExcessImports :: "('c, 'v) LockSatisfaction \<Rightarrow> string list" where
  "ExcessImports ls = excessPkgs ls"

definition UnmatchedOverrides ::
  "('c, 'v) LockSatisfaction \<Rightarrow> (ProjectRoot, ('c, 'v) ConstraintMismatch) gomap" where
  "UnmatchedOverrides ls = badovr ls"

definition UnmatchedConstraints ::
  "('c, 'v) LockSatisfaction \<Rightarrow> (ProjectRoot, ('c, 'v) ConstraintMismatch) gomap" where
  "UnmatchedConstraints ls = badconstraint ls"

section \<open>The radix tree\<close>

text \<open>
  Modelled from the spec: the tree of \<open>github.com/armon/go-radix\<close> (\<open>radix.New\<close>,
  \<open>Insert\<close>, \<open>LongestPrefix\<close>) is a library outside the sources. It is a map from
  string keys to values; \<open>LongestPrefix s\<close> returns the entry whose key is the
  longest of the keys that are a prefix of \<open>s\<close>, byte by byte, and reports
  whether there is one.
\<close>

type_synonym 'a radix_Tree = "(string, 'a) gomap"

definition radix_New :: "'a radix_Tree" where
  "radix_New = []"

definition radix_Insert :: "string \<Rightarrow> 'a \<Rightarrow> 'a radix_Tree \<Rightarrow> 'a radix_Tree" where
  "radix_Insert s v t = AList.update s v t"

fun radix_LongestPrefix :: "'a radix_Tree \<Rightarrow> string \<Rightarrow> (string \<times> 'a) option" where
  "radix_LongestPrefix [] s = None"
| "radix_LongestPrefix ((k, v) # t) s =
     (case radix_LongestPrefix t s of
        None \<Rightarrow> if prefix k s then Some (k, v) else None
      | Some (k', v') \<Rightarrow>
          if prefix k s \<and> length k' < length k then Some (k, v) else Some (k', v'))"

section \<open>\<open>findEffectualConstraints\<close>\<close>

definition eff_step :: "unit radix_Tree \<Rightarrow> string \<Rightarrow> (string, bool) gomap \<Rightarrow> (string, bool) gomap" where
  "eff_step xt imp eff =
     (case radix_LongestPrefix xt imp of
        Some (root, _) \<Rightarrow> map_set root True eff
      | None \<Rightarrow> eff)"

definition findEffectualConstraints ::
  "MapOrder \<Rightarrow> ('c, 'ig) RootManifest option \<Rightarrow> (string, bool) gomap
     \<Rightarrow> error + (string, bool) gomap" where
  "findEffectualConstraints ord m imports =
     (case m of
        None \<Rightarrow> Inl NilPointerDereference
      | Some mf \<Rightarrow>
          let xt = fold (\<lambda>pr xt. radix_Insert pr () xt)
                     (range_keys (ord_constraints ord) (DependencyConstraints mf)) radix_New;
              eff = fold (eff_step xt) (range_keys (ord_imports ord) imports) map_make
          in Inr eff)"

section \<open>\<open>LockSatisfiesInputs\<close>\<close>

datatype lockUnsatisfy = missingFromLock | inAdditionToLock

definition mark_input :: "string \<Rightarrow> (string, bool) gomap \<Rightarrow> (string, bool) gomap" where
  "mark_input imp m = map_set imp True m"

definition diff_inputs ::
  "string \<Rightarrow> (string, lockUnsatisfy) gomap \<times> (string, bool) gomap
     \<Rightarrow> (string, lockUnsatisfy) gomap \<times> (string, bool) gomap" where
  \<comment> \<open>the body of the loop of lines 159 to 166, on \<open>(pkgDiff, inlock)\<close>\<close>
  "diff_inputs ip st =
     (case st of (pkgDiff, inlock) \<Rightarrow>
        if \<not> map_bool inlock ip then (map_set ip missingFromLock pkgDiff, inlock)
        else (pkgDiff, map_delete ip inlock))"

definition diff_lock ::
  "(string, bool) gomap \<Rightarrow> string \<Rightarrow> (string, lockUnsatisfy) gomap
     \<Rightarrow> (string, lockUnsatisfy) gomap" where
  \<comment> \<open>the body of the loop of lines 174 to 178\<close>
  "diff_lock ininputs ip pkgDiff =
     (if \<not> map_bool ininputs ip then map_set ip inAdditionToLock pkgDiff else pkgDiff)"

definition collect_diff ::
  "string \<times> lockUnsatisfy \<Rightarrow> ('c, 'v) LockSatisfaction \<Rightarrow> ('c, 'v) LockSatisfaction" where
  \<comment> \<open>the body of the loop of lines 180 to 186\<close>
  "collect_diff e lsat =
     (case e of (ip, typ) \<Rightarrow>
        if typ = missingFromLock then lsat\<lparr>missingPkgs := missingPkgs lsat @ [ip]\<rparr>
        else lsat\<lparr>excessPkgs := excessPkgs lsat @ [ip]\<rparr>)"

definition check_project ::
  "('c \<Rightarrow> 'v \<Rightarrow> bool) \<Rightarrow> 'c ProjectConstraints \<Rightarrow> 'c ProjectConstraints
     \<Rightarrow> (string, bool) gomap \<Rightarrow> 'v LockedProject
     \<Rightarrow> ('c, 'v) LockSatisfaction \<Rightarrow> ('c, 'v) LockSatisfaction" where
  \<comment> \<open>the body of the loop of lines 191 to 212\<close>
  "check_project Matches ovr constraints eff lp lsat =
     (let pr = ProjectRoot (Ident lp) in
      case map_of ovr pr of
        Some pp \<Rightarrow>
          if \<not> Matches (Constraint pp) (Version lp)
          then lsat\<lparr>badovr :=
                 map_set pr \<lparr>CM_C = Constraint pp, CM_V = Version lp\<rparr> (badovr lsat)\<rparr>
          else lsat
      | None \<Rightarrow>
          (case map_of constraints pr of
             Some pp \<Rightarrow>
               if map_bool eff pr \<and> \<not> Matches (Constraint pp) (Version lp)
               then lsat\<lparr>badconstraint :=
                      map_set pr \<lparr>CM_C = Constraint pp, CM_V = Version lp\<rparr> (badconstraint lsat)\<rparr>
               else lsat
           | None \<Rightarrow> lsat))"

definition input_imports ::
  "MapOrder \<Rightarrow> string list \<Rightarrow> (string, bool) gomap \<Rightarrow> (string, bool) gomap" where
  \<comment> \<open>\<open>ininputs\<close> after the loops of lines 142 to 148\<close>
  "input_imports ord reach req =
     fold mark_input (range_keys (ord_req ord) req) (fold mark_input reach map_make)"

definition LockSatisfiesInputs ::
  "('c \<Rightarrow> 'v \<Rightarrow> bool) \<Rightarrow> MapOrder \<Rightarrow> 'v LockWithImports option
     \<Rightarrow> ('c, 'ig) RootManifest option \<Rightarrow> 'ig PackageTree
     \<Rightarrow> error + ('c, 'v) LockSatisfaction" where
  "LockSatisfiesInputs Matches ord l m rpt =
     (case l of
        None \<Rightarrow>
          Inr \<lparr>nolock = True, missingPkgs = [], excessPkgs = [],
               badovr = map_make, badconstraint = map_make\<rparr>
      | Some lk \<Rightarrow>
          let ig = (case m of None \<Rightarrow> None | Some mf \<Rightarrow> IgnoredPackages mf);
              req = (case m of None \<Rightarrow> map_make | Some mf \<Rightarrow> RequiredPackages mf);
              reach = rpt ig;
              ininputs = input_imports ord reach req;
              inlock = fold mark_input (InputImports lk) map_make;
              lsat = \<lparr>nolock = False, missingPkgs = [], excessPkgs = [],
                      badovr = map_make, badconstraint = map_make\<rparr>;
              (pkgDiff1, inlock1) =
                 fold diff_inputs (range_keys (ord_ininputs ord) ininputs) (map_make, inlock);
              pkgDiff = fold (diff_lock ininputs) (range_keys (ord_inlock ord) inlock1) pkgDiff1;
              lsat1 = fold collect_diff (range_entries (ord_pkgDiff ord) pkgDiff) lsat
          in (case findEffectualConstraints ord m ininputs of
                Inl e \<Rightarrow> Inl e
              | Inr eff \<Rightarrow>
                  (case m of
                     None \<Rightarrow> Inl NilPointerDereference
                   | Some mf \<Rightarrow>
                       Inr (fold (check_project Matches (Overrides mf) (DependencyConstraints mf) eff)
                              (Projects lk) lsat1))))"

section \<open>Notions used to state the properties\<close>

text \<open>
  The required imports of a call with a manifest: what the reachability query
  returns, together with the keys of \<open>RequiredPackages\<close>.
\<close>

definition required_imports :: "('c, 'ig) RootManifest \<Rightarrow> 'ig PackageTree \<Rightarrow> string set" where
  "required_imports mf rpt = set (rpt (IgnoredPackages mf)) \<union> fst ` set (RequiredPackages mf)"

text \<open>\<open>r\<close> is the longest of the declared roots that are a prefix of the import path.\<close>

definition longest_root_prefix :: "string set \<Rightarrow> string \<Rightarrow> string \<Rightarrow> bool" where
  "longest_root_prefix roots imp r \<longleftrightarrow>
     r \<in> roots \<and> prefix r imp \<and> (\<forall>r' \<in> roots. prefix r' imp \<longrightarrow> length r' \<le> length r)"

text \<open>
  An import path is under a project root when it is the root or continues it
  after a slash: the path-segment reading of "under its prefix" (spec 4.1).
\<close>

definition under_root :: "ProjectRoot \<Rightarrow> string \<Rightarrow> bool" where
  "under_root root imp \<longleftrightarrow> imp = root \<or> prefix (root @ ''/'') imp"

text \<open>
  What a caller can observe of a result when the order of the two slices is
  disregarded: the flag, the two import sets, the two mismatch maps.
\<close>

definition ls_view ::
  "('c, 'v) LockSatisfaction \<Rightarrow>
   bool \<times> string set \<times> string set
     \<times> (ProjectRoot \<rightharpoonup> ('c, 'v) ConstraintMismatch) \<times> (ProjectRoot \<rightharpoonup> ('c, 'v) ConstraintMismatch)" where
  "ls_view ls =
     (nolock ls, set (missingPkgs ls), set (excessPkgs ls),
      map_of (badovr ls), map_of (badconstraint ls))"

text \<open>Every key of a \<open>map[string]bool\<close> carries \<open>true\<close>.\<close>

definition all_marked :: "('k, bool) gomap \<Rightarrow> bool" where
  "all_marked m = (\<forall>k b. map_of m k = Some b \<longrightarrow> b)"

text \<open>The map that \<open>findEffectualConstraints\<close> returns when the manifest is present.\<close>

definition eff_of :: "MapOrder \<Rightarrow> ('c, 'ig) RootManifest \<Rightarrow> (string, bool) gomap \<Rightarrow> (string, bool) gomap" where
  "eff_of ord mf imports =
     fold (eff_step (fold (\<lambda>pr xt. radix_Insert pr () xt)
                       (range_keys (ord_constraints ord) (DependencyConstraints mf)) radix_New))
       (range_keys (ord_imports ord) imports) map_make"

section \<open>Example inputs\<close>

text \<open>
  Versions and constraints are natural numbers in the examples; a constraint \<open>c\<close>
  matches the versions from \<open>c\<close> upwards.
\<close>

definition at_least :: "nat \<Rightarrow> nat \<Rightarrow> bool" where
  "at_least c v = (c \<le> v)"

definition ord0 :: MapOrder where
  "ord0 = \<lparr>ord_constraints = [], ord_imports = [], ord_req = [], ord_ininputs = [],
           ord_inlock = [], ord_pkgDiff = []\<rparr>"

definition ord1 :: MapOrder where
  "ord1 = \<lparr>ord_constraints = [1], ord_imports = [2, 0], ord_req = [1], ord_ininputs = [1, 1],
           ord_inlock = [3, 1], ord_pkgDiff = [1, 0, 1]\<rparr>"

definition lock_xy :: "nat LockWithImports" where
  "lock_xy = \<lparr>Projects = [\<lparr>Ident = \<lparr>ProjectRoot = ''x''\<rparr>, Version = 1\<rparr>,
                           \<lparr>Ident = \<lparr>ProjectRoot = ''y''\<rparr>, Version = 2\<rparr>],
             InputImports = [''a'', ''b'', ''d'', ''b'']\<rparr>"

definition manifest_xy :: "(nat, unit) RootManifest" where
  "manifest_xy =
     \<lparr>DependencyConstraints = [(''x'', \<lparr>Constraint = 1\<rparr>), (''y'', \<lparr>Constraint = 3\<rparr>),
                               (''w'', \<lparr>Constraint = 7\<rparr>)],
      Overrides = [(''x'', \<lparr>Constraint = 2\<rparr>), (''z'', \<lparr>Constraint = 9\<rparr>)],
      IgnoredPackages = None,
      RequiredPackages = [(''y/sub'', True), (''c'', False), (''w/q'', True)]\<rparr>"

definition tree_xy :: "unit PackageTree" where
  "tree_xy ig = [''a'', ''c'', ''x/p'', ''c'']"

definition lock_y :: "nat LockWithImports" where
  "lock_y = \<lparr>Projects = [\<lparr>Ident = \<lparr>ProjectRoot = ''y''\<rparr>, Version = 2\<rparr>],
            InputImports = [''a'', ''b'']\<rparr>"

definition manifest_y :: "(nat, unit) RootManifest" where
  "manifest_y =
     \<lparr>DependencyConstraints = [(''y'', \<lparr>Constraint = 3\<rparr>)], Overrides = [],
      IgnoredPackages = None, RequiredPackages = [(''b'', True)]\<rparr>"

definition tree_ab :: "unit PackageTree" where
  "tree_ab ig = [''a'', ''b'']"




definition lock_foo :: "nat LockWithImports" where
  "lock_foo = \<lparr>Projects = [\<lparr>Ident = \<lparr>ProjectRoot = ''foo''\<rparr>, Version = 2\<rparr>],
              InputImports = [''foobar'']\<rparr>"

definition manifest_foo :: "(nat, unit) RootManifest" where
  "manifest_foo =
     \<lparr>DependencyConstraints = [(''foo'', \<lparr>Constraint = 3\<rparr>)], Overrides = [],
      IgnoredPackages = None, RequiredPackages = []\<rparr>"

definition tree_foobar :: "unit PackageTree" where
  "tree_foobar ig = [''foobar'']"

section \<open>Iteration order\<close>

lemma mset_pick_order: "mset (pick_order ns xs) = mset xs"
proof (induction ns arbitrary: xs)
  case Nil
  show ?case by simp
next
  case (Cons n ns)
  show ?case
  proof (cases "xs = []")
    case True
    then show ?thesis by simp
  next
    case False
    define i where "i = n mod length xs"
    have i: "i < length xs" using False by (simp add: i_def)
    have "mset xs = mset (take i xs @ xs ! i # drop (Suc i) xs)"
      using i by (simp add: id_take_nth_drop [symmetric])
    then show ?thesis using False Cons.IH [of "take i xs @ drop (Suc i) xs"]
      by (simp add: i_def [symmetric] Let_def)
  qed
qed

lemma set_pick_order: "set (pick_order ns xs) = set xs"
  using mset_pick_order [of ns xs] by (metis set_mset_mset)

lemma distinct_pick_order: "distinct (pick_order ns xs) = distinct xs"
  using mset_pick_order [of ns xs] by (metis mset_eq_imp_distinct_iff)

lemma pick_order_complete: "mset ys = mset xs \<Longrightarrow> \<exists>ns. pick_order ns xs = ys"
proof (induction ys arbitrary: xs)
  case Nil
  then have "pick_order [] xs = []" by simp
  then show ?case by blast
next
  case (Cons y ys)
  then have "y \<in> set xs" by (metis list.set_intros(1) mset_eq_setD)
  then obtain i where i: "i < length xs" "xs ! i = y" by (auto simp: in_set_conv_nth)
  have xs: "xs = take i xs @ y # drop (Suc i) xs"
    using i id_take_nth_drop by blast
  have "mset xs = mset (take i xs @ drop (Suc i) xs) + {#y#}"
    by (subst xs) simp
  with Cons.prems have "mset ys = mset (take i xs @ drop (Suc i) xs)" by simp
  from Cons.IH [OF this] obtain ns where ns: "pick_order ns (take i xs @ drop (Suc i) xs) = ys"
    by blast
  have "xs \<noteq> []" using i by auto
  then have "pick_order (i # ns) xs = y # ys" using i ns by (simp add: Let_def)
  then show ?case by blast
qed

lemma clearjunk_Nil_iff: "AList.clearjunk m = [] \<longleftrightarrow> m = []"
  by (cases m) auto

lemma map_len_zero: "map_len m = 0 \<longleftrightarrow> map_of m = Map.empty"
  by (cases m) (auto simp: map_len_def map_entries_def)

lemma set_range_keys: "set (range_keys ns m) = fst ` set m"
  by (simp add: range_keys_def range_entries_def map_entries_def set_pick_order dom_clearjunk)

lemma set_range_entries: "set (range_entries ns m) = set (AList.clearjunk m)"
  by (simp add: range_entries_def map_entries_def set_pick_order)

lemma distinct_range_keys: "distinct (range_keys ns m)"
proof -
  have "mset (range_keys ns m) = mset (map fst (AList.clearjunk m))"
    by (simp add: range_keys_def range_entries_def map_entries_def mset_pick_order)
  then show ?thesis
    by (metis distinct_clearjunk mset_eq_imp_distinct_iff)
qed

section \<open>Maps used as sets\<close>

lemma all_marked_make: "all_marked map_make"
  by (simp add: all_marked_def map_make_def)

lemma all_marked_bool: "all_marked m \<Longrightarrow> map_bool m k \<longleftrightarrow> k \<in> fst ` set m"
  by (auto simp: all_marked_def map_bool_def dom_map_of_conv_image_fst [symmetric]
      split: option.splits)

lemma all_marked_mark_input: "all_marked m \<Longrightarrow> all_marked (mark_input k m)"
  by (auto simp: all_marked_def mark_input_def map_set_def update_conv')

lemma all_marked_delete: "all_marked m \<Longrightarrow> all_marked (map_delete k m)"
  by (auto simp: all_marked_def map_delete_def delete_conv' split: if_splits)

lemma keys_mark_input: "fst ` set (mark_input k m) = insert k (fst ` set m)"
  by (simp add: mark_input_def map_set_def dom_update)

lemma keys_map_delete: "fst ` set (map_delete k m) = fst ` set m - {k}"
proof -
  have "fst ` set (AList.delete k m) = set (map fst (AList.delete k m))" by simp
  also have "\<dots> = set (removeAll k (map fst m))" by (simp only: delete_keys)
  also have "\<dots> = fst ` set m - {k}" by simp
  finally show ?thesis by (simp add: map_delete_def)
qed

lemma distinct_mark_input: "distinct (map fst m) \<Longrightarrow> distinct (map fst (mark_input k m))"
  by (simp add: mark_input_def map_set_def distinct_update)

lemma distinct_map_delete: "distinct (map fst m) \<Longrightarrow> distinct (map fst (map_delete k m))"
  by (simp add: map_delete_def distinct_delete)

lemma fold_mark_input:
  "all_marked m \<Longrightarrow>
   all_marked (fold mark_input xs m) \<and> fst ` set (fold mark_input xs m) = set xs \<union> fst ` set m"
  by (induction xs arbitrary: m) (auto simp: all_marked_mark_input keys_mark_input)

lemma distinct_fold_mark_input:
  "distinct (map fst m) \<Longrightarrow> distinct (map fst (fold mark_input xs m))"
  by (induction xs arbitrary: m) (auto simp: distinct_mark_input)

lemma input_imports_keys:
  "all_marked (input_imports ord reach req) \<and>
   fst ` set (input_imports ord reach req) = set reach \<union> fst ` set req"
  using fold_mark_input [OF all_marked_make, of reach]
    fold_mark_input [of "fold mark_input reach map_make" "range_keys (ord_req ord) req"]
  by (auto simp: input_imports_def set_range_keys map_make_def)

section \<open>The import difference\<close>

lemma map_of_map_set: "map_of (map_set k v m) = (map_of m)(k \<mapsto> v)"
  by (simp add: map_set_def update_conv')

lemma distinct_map_set: "distinct (map fst m) \<Longrightarrow> distinct (map fst (map_set k v m))"
  by (simp add: map_set_def distinct_update)

lemma diff_inputs_pair:
  "diff_inputs ip (pd, il) =
     (if \<not> map_bool il ip then (map_set ip missingFromLock pd, il) else (pd, map_delete ip il))"
  by (simp add: diff_inputs_def)

lemma fold_diff_inputs:
  "distinct ks \<Longrightarrow> all_marked il \<Longrightarrow> fold diff_inputs ks (pd, il) = (pd', il') \<Longrightarrow>
   (\<forall>k. map_of pd' k =
      (if k \<in> set ks \<and> k \<notin> fst ` set il then Some missingFromLock else map_of pd k))
   \<and> fst ` set il' = fst ` set il - set ks
   \<and> all_marked il'
   \<and> (distinct (map fst pd) \<longrightarrow> distinct (map fst pd'))"
proof (induction ks arbitrary: pd il)
  case Nil
  then show ?case by simp
next
  case (Cons a ks)
  show ?case
  proof (cases "map_bool il a")
    case True
    then have a: "a \<in> fst ` set il" using Cons.prems(2) by (simp add: all_marked_bool)
    have step: "fold diff_inputs ks (pd, map_delete a il) = (pd', il')"
      using Cons.prems(3) True by (simp add: diff_inputs_pair)
    have "distinct ks" "a \<notin> set ks" using Cons.prems(1) by auto
    from Cons.IH [OF this(1) all_marked_delete [OF Cons.prems(2)] step] this(2) a
    show ?thesis by (auto simp: keys_map_delete)
  next
    case False
    then have a: "a \<notin> fst ` set il" using Cons.prems(2) by (simp add: all_marked_bool)
    have step: "fold diff_inputs ks (map_set a missingFromLock pd, il) = (pd', il')"
      using Cons.prems(3) False by (simp add: diff_inputs_pair)
    have "distinct ks" "a \<notin> set ks" using Cons.prems(1) by auto
    from Cons.IH [OF this(1) Cons.prems(2) step] this(2) a
    show ?thesis by (auto simp: map_of_map_set distinct_map_set)
  qed
qed

lemma fold_diff_lock:
  "(\<forall>k. map_of (fold (diff_lock ii) ks pd) k =
      (if k \<in> set ks \<and> \<not> map_bool ii k then Some inAdditionToLock else map_of pd k))
   \<and> (distinct (map fst pd) \<longrightarrow> distinct (map fst (fold (diff_lock ii) ks pd)))"
proof (induction ks arbitrary: pd)
  case Nil
  show ?case by simp
next
  case (Cons a ks)
  show ?case
    using Cons.IH [of "diff_lock ii a pd"]
    by (auto simp: diff_lock_def map_of_map_set distinct_map_set)
qed

lemma fold_collect_diff:
  "fold collect_diff es lsat =
     lsat\<lparr>missingPkgs := missingPkgs lsat @ map fst (filter (\<lambda>e. snd e = missingFromLock) es),
          excessPkgs := excessPkgs lsat @ map fst (filter (\<lambda>e. snd e \<noteq> missingFromLock) es)\<rparr>"
  by (induction es arbitrary: lsat) (auto simp: collect_diff_def split: prod.splits)

lemma check_project_keeps:
  "nolock (check_project M ovr cs eff lp lsat) = nolock lsat \<and>
   missingPkgs (check_project M ovr cs eff lp lsat) = missingPkgs lsat \<and>
   excessPkgs (check_project M ovr cs eff lp lsat) = excessPkgs lsat"
  by (simp add: check_project_def Let_def split: option.splits)

lemma fold_check_project_keeps:
  "nolock (fold (check_project M ovr cs eff) lps lsat) = nolock lsat \<and>
   missingPkgs (fold (check_project M ovr cs eff) lps lsat) = missingPkgs lsat \<and>
   excessPkgs (fold (check_project M ovr cs eff) lps lsat) = excessPkgs lsat"
  by (induction lps arbitrary: lsat) (simp_all add: check_project_keeps)

lemma findEffectualConstraints_Some:
  "findEffectualConstraints ord (Some mf) imports = Inr (eff_of ord mf imports)"
  by (simp add: findEffectualConstraints_def eff_of_def Let_def)

lemma LockSatisfiesInputs_nil_manifest:
  "LockSatisfiesInputs M ord (Some lk) None rpt = Inl NilPointerDereference"
  by (simp add: LockSatisfiesInputs_def findEffectualConstraints_def Let_def split: prod.splits)

lemma LockSatisfiesInputs_Inr_cases:
  assumes "LockSatisfiesInputs M ord l m rpt = Inr ls"
  shows "l = None \<or> (\<exists>lk mf. l = Some lk \<and> m = Some mf)"
proof (cases l)
  case None
  then show ?thesis by simp
next
  case (Some lk)
  with assms LockSatisfiesInputs_nil_manifest [of M ord lk rpt] show ?thesis
    by (cases m) auto
qed

lemma LockSatisfiesInputs_present:
  assumes "LockSatisfiesInputs M ord (Some lk) (Some mf) rpt = Inr ls"
  shows "\<exists>pd.
     (\<forall>k. map_of pd k =
        (if k \<in> required_imports mf rpt \<and> k \<notin> set (InputImports lk) then Some missingFromLock
         else if k \<in> set (InputImports lk) \<and> k \<notin> required_imports mf rpt then Some inAdditionToLock
         else None))
     \<and> distinct (map fst pd)
     \<and> ls = fold (check_project M (Overrides mf) (DependencyConstraints mf)
                    (eff_of ord mf (input_imports ord (rpt (IgnoredPackages mf)) (RequiredPackages mf))))
               (Projects lk)
               (fold collect_diff (range_entries (ord_pkgDiff ord) pd)
                  \<lparr>nolock = False, missingPkgs = [], excessPkgs = [],
                   badovr = map_make, badconstraint = map_make\<rparr>)"
proof -
  define ii where "ii = input_imports ord (rpt (IgnoredPackages mf)) (RequiredPackages mf)"
  define il where "il = fold mark_input (InputImports lk) (map_make :: (string, bool) gomap)"
  obtain pd1 il1 where l1: "fold diff_inputs (range_keys (ord_ininputs ord) ii) (map_make, il) = (pd1, il1)"
    by fastforce
  define pd where "pd = fold (diff_lock ii) (range_keys (ord_inlock ord) il1) pd1"
  have ii: "all_marked ii" "fst ` set ii = required_imports mf rpt"
    using input_imports_keys [of ord "rpt (IgnoredPackages mf)" "RequiredPackages mf"]
    by (simp_all add: ii_def required_imports_def)
  have il: "all_marked il" "fst ` set il = set (InputImports lk)"
    using fold_mark_input [OF all_marked_make, of "InputImports lk"]
    by (simp_all add: il_def map_make_def)
  have f1: "\<forall>k. map_of pd1 k =
      (if k \<in> required_imports mf rpt \<and> k \<notin> set (InputImports lk) then Some missingFromLock else None)"
    and k1: "fst ` set il1 = set (InputImports lk) - required_imports mf rpt"
    and d1: "distinct (map fst pd1)"
    using fold_diff_inputs [OF distinct_range_keys il(1) l1] ii(2) il(2)
    by (simp_all add: set_range_keys map_make_def)
  have f2: "\<forall>k. map_of pd k =
        (if k \<in> required_imports mf rpt \<and> k \<notin> set (InputImports lk) then Some missingFromLock
         else if k \<in> set (InputImports lk) \<and> k \<notin> required_imports mf rpt then Some inAdditionToLock
         else None)"
    and d2: "distinct (map fst pd)"
    using fold_diff_lock [of ii "range_keys (ord_inlock ord) il1" pd1] f1 k1 d1 ii
    by (auto simp: pd_def set_range_keys all_marked_bool)
  have "ls = fold (check_project M (Overrides mf) (DependencyConstraints mf) (eff_of ord mf ii))
               (Projects lk)
               (fold collect_diff (range_entries (ord_pkgDiff ord) pd)
                  \<lparr>nolock = False, missingPkgs = [], excessPkgs = [],
                   badovr = map_make, badconstraint = map_make\<rparr>)"
    using assms l1
    by (simp add: LockSatisfiesInputs_def Let_def findEffectualConstraints_Some
        ii_def [symmetric] il_def [symmetric] pd_def [symmetric])
  with f2 d2 show ?thesis unfolding ii_def by blast
qed

lemma distinct_range_entries: "distinct (map fst (range_entries ns m))"
  using distinct_range_keys [of ns m] by (simp add: range_keys_def)

lemma range_entries_distinct_set:
  "distinct (map fst pd) \<Longrightarrow> set (range_entries ns pd) = set pd"
  by (simp add: set_range_entries)

lemma keys_of_kind:
  assumes "distinct (map fst pd)"
  shows "set (map fst (filter (\<lambda>e. snd e = t) (range_entries ns pd))) = {k. map_of pd k = Some t}"
  using assms by (auto simp: range_entries_distinct_set map_of_eq_Some_iff image_iff)

lemma not_missing: "(t \<noteq> missingFromLock) = (t = inAdditionToLock)"
  by (cases t) simp_all

lemma distinct_partition:
  "distinct (map fst es) \<Longrightarrow>
   distinct (map fst (filter P es) @ map fst (filter (\<lambda>e. \<not> P e) es))"
  by (induction es) (auto simp: image_iff)

lemma LockSatisfiesInputs_diff:
  assumes "LockSatisfiesInputs M ord (Some lk) (Some mf) rpt = Inr ls"
  shows "set (missingPkgs ls) = required_imports mf rpt - set (InputImports lk)"
    and "set (excessPkgs ls) = set (InputImports lk) - required_imports mf rpt"
    and "distinct (missingPkgs ls @ excessPkgs ls)"
    and "\<not> nolock ls"
proof -
  from LockSatisfiesInputs_present [OF assms] obtain pd where
    pd: "\<forall>k. map_of pd k =
        (if k \<in> required_imports mf rpt \<and> k \<notin> set (InputImports lk) then Some missingFromLock
         else if k \<in> set (InputImports lk) \<and> k \<notin> required_imports mf rpt then Some inAdditionToLock
         else None)"
    and d: "distinct (map fst pd)"
    and ls: "ls = fold (check_project M (Overrides mf) (DependencyConstraints mf)
                    (eff_of ord mf (input_imports ord (rpt (IgnoredPackages mf)) (RequiredPackages mf))))
               (Projects lk)
               (fold collect_diff (range_entries (ord_pkgDiff ord) pd)
                  \<lparr>nolock = False, missingPkgs = [], excessPkgs = [],
                   badovr = map_make, badconstraint = map_make\<rparr>)"
    by blast
  have m: "missingPkgs ls =
        map fst (filter (\<lambda>e. snd e = missingFromLock) (range_entries (ord_pkgDiff ord) pd))"
    and e: "excessPkgs ls =
        map fst (filter (\<lambda>e. \<not> snd e = missingFromLock) (range_entries (ord_pkgDiff ord) pd))"
    and n: "\<not> nolock ls"
    by (simp_all add: ls fold_check_project_keeps fold_collect_diff)
  show "set (missingPkgs ls) = required_imports mf rpt - set (InputImports lk)"
    unfolding m keys_of_kind [OF d] using pd by (auto split: if_splits)
  show "set (excessPkgs ls) = set (InputImports lk) - required_imports mf rpt"
    unfolding e not_missing keys_of_kind [OF d] using pd by (auto split: if_splits)
  show "distinct (missingPkgs ls @ excessPkgs ls)"
    unfolding m e by (rule distinct_partition [OF distinct_range_entries])
  show "\<not> nolock ls" by (rule n)
qed

lemma Passed_iff:
  "Passed ls \<longleftrightarrow>
     \<not> nolock ls \<and> set (missingPkgs ls) = {} \<and> set (excessPkgs ls) = {}
     \<and> map_of (badovr ls) = Map.empty \<and> map_of (badconstraint ls) = Map.empty"
  using map_len_zero [of "badovr ls"] map_len_zero [of "badconstraint ls"]
  by (auto simp: Passed_def)

section \<open>Effectual constraints\<close>

lemma radix_keys:
  "fst ` set (fold (\<lambda>pr xt. radix_Insert pr v xt) ks t) = set ks \<union> fst ` set t"
  by (induction ks arbitrary: t) (auto simp: radix_Insert_def dom_update)

lemma LongestPrefix_None: "radix_LongestPrefix t s = None \<longleftrightarrow> (\<forall>k \<in> fst ` set t. \<not> prefix k s)"
  by (induction t s rule: radix_LongestPrefix.induct) (auto split: option.splits)

lemma LongestPrefix_Some:
  "radix_LongestPrefix t s = Some (k, v) \<Longrightarrow>
     (k, v) \<in> set t \<and> prefix k s \<and> (\<forall>k' \<in> fst ` set t. prefix k' s \<longrightarrow> length k' \<le> length k)"
proof (induction t s arbitrary: k v rule: radix_LongestPrefix.induct)
  case (1 s)
  then show ?case by simp
next
  case (2 k0 v0 t s)
  show ?case
  proof (cases "radix_LongestPrefix t s")
    case None
    with "2.prems" LongestPrefix_None [of t s] show ?thesis
      by (auto split: if_splits)
  next
    case (Some e)
    obtain k1 v1 where e: "e = (k1, v1)" by (cases e)
    from "2.IH" [of k1 v1] Some e
    have ih: "(k1, v1) \<in> set t" "prefix k1 s"
      "\<forall>k' \<in> fst ` set t. prefix k' s \<longrightarrow> length k' \<le> length k1"
      by auto
    show ?thesis
    proof (cases "prefix k0 s \<and> length k1 < length k0")
      case True
      with "2.prems" Some e have "k = k0" "v = v0" by auto
      with True ih show ?thesis by fastforce
    next
      case False
      with "2.prems" Some e have "k = k1" "v = v1" by auto
      with False ih show ?thesis by fastforce
    qed
  qed
qed

lemma prefix_same_length: "prefix a s \<Longrightarrow> prefix b s \<Longrightarrow> length a = length b \<Longrightarrow> a = b"
  by (metis prefix_length_prefix prefix_order.antisym order_refl)

lemma LongestPrefix_iff:
  "(\<exists>v. radix_LongestPrefix t s = Some (r, v)) \<longleftrightarrow> longest_root_prefix (fst ` set t) s r"
proof
  assume "\<exists>v. radix_LongestPrefix t s = Some (r, v)"
  then obtain v where "radix_LongestPrefix t s = Some (r, v)" by blast
  from LongestPrefix_Some [OF this] show "longest_root_prefix (fst ` set t) s r"
    by (force simp: longest_root_prefix_def)
next
  assume a: "longest_root_prefix (fst ` set t) s r"
  then have "radix_LongestPrefix t s \<noteq> None"
    by (auto simp: LongestPrefix_None longest_root_prefix_def)
  then obtain k v where kv: "radix_LongestPrefix t s = Some (k, v)" by auto
  from LongestPrefix_Some [OF this] a have "prefix k s" "prefix r s" "length k = length r"
    by (auto simp: longest_root_prefix_def intro!: antisym)
  then have "k = r" by (rule prefix_same_length)
  with kv show "\<exists>v. radix_LongestPrefix t s = Some (r, v)" by blast
qed

lemma map_bool_set_True: "map_bool (map_set k True m) r \<longleftrightarrow> r = k \<or> map_bool m r"
  by (simp add: map_bool_def map_of_map_set)

lemma fold_eff_step:
  "map_bool (fold (eff_step xt) imps eff) r \<longleftrightarrow>
     map_bool eff r \<or> (\<exists>imp \<in> set imps. \<exists>v. radix_LongestPrefix xt imp = Some (r, v))"
proof (induction imps arbitrary: eff)
  case Nil
  show ?case by simp
next
  case (Cons imp imps)
  show ?case
    unfolding fold_simps Cons.IH
    by (cases "radix_LongestPrefix xt imp") (auto simp: eff_step_def map_bool_set_True)
qed

lemma eff_of_iff:
  "map_bool (eff_of ord mf imports) r \<longleftrightarrow>
     (\<exists>imp \<in> fst ` set imports. longest_root_prefix (fst ` set (DependencyConstraints mf)) imp r)"
proof -
  have "map_bool (map_make :: (string, bool) gomap) r = False"
    by (simp add: map_make_def map_bool_def)
  moreover have "radix_LongestPrefix t s = Some (r, ()) \<longleftrightarrow> longest_root_prefix (fst ` set t) s r"
    for t :: "unit radix_Tree" and s
    using LongestPrefix_iff [of t s r] by simp
  ultimately show ?thesis
    unfolding eff_of_def fold_eff_step
    by (simp add: radix_keys set_range_keys radix_New_def)
qed

section \<open>The constraint check\<close>

lemma badovr_check_project:
  "badovr (check_project M ovr cs eff lp lsat) =
     (case map_of ovr (ProjectRoot (Ident lp)) of
        Some pp \<Rightarrow>
          if \<not> M (Constraint pp) (Version lp)
          then map_set (ProjectRoot (Ident lp)) \<lparr>CM_C = Constraint pp, CM_V = Version lp\<rparr> (badovr lsat)
          else badovr lsat
      | None \<Rightarrow> badovr lsat)"
  by (simp add: check_project_def Let_def split: option.splits)

lemma badconstraint_check_project:
  "badconstraint (check_project M ovr cs eff lp lsat) =
     (case map_of ovr (ProjectRoot (Ident lp)) of
        Some pp \<Rightarrow> badconstraint lsat
      | None \<Rightarrow>
          (case map_of cs (ProjectRoot (Ident lp)) of
             Some pp \<Rightarrow>
               if map_bool eff (ProjectRoot (Ident lp)) \<and> \<not> M (Constraint pp) (Version lp)
               then map_set (ProjectRoot (Ident lp)) \<lparr>CM_C = Constraint pp, CM_V = Version lp\<rparr>
                      (badconstraint lsat)
               else badconstraint lsat
           | None \<Rightarrow> badconstraint lsat))"
  by (simp add: check_project_def Let_def split: option.splits)

lemma badovr_fold:
  "map_of (badovr (fold (check_project M ovr cs eff) lps lsat)) k = Some cm \<Longrightarrow>
     map_of (badovr lsat) k = Some cm \<or>
     (\<exists>lp \<in> set lps. \<exists>pp. ProjectRoot (Ident lp) = k \<and> map_of ovr k = Some pp
        \<and> \<not> M (Constraint pp) (Version lp)
        \<and> cm = \<lparr>CM_C = Constraint pp, CM_V = Version lp\<rparr>)"
proof (induction lps arbitrary: lsat)
  case Nil
  then show ?case by simp
next
  case (Cons lp lps)
  from Cons.IH [of "check_project M ovr cs eff lp lsat"] Cons.prems
  show ?case
    by (auto simp: badovr_check_project map_of_map_set split: option.splits if_splits)
qed

lemma badovr_fold_dom:
  "map_of (badovr (fold (check_project M ovr cs eff) lps lsat)) k \<noteq> None \<longleftrightarrow>
     map_of (badovr lsat) k \<noteq> None \<or>
     (\<exists>lp \<in> set lps. \<exists>pp. ProjectRoot (Ident lp) = k \<and> map_of ovr k = Some pp
        \<and> \<not> M (Constraint pp) (Version lp))"
proof (induction lps arbitrary: lsat)
  case Nil
  show ?case by simp
next
  case (Cons lp lps)
  show ?case
    unfolding fold_simps o_apply list.set Cons.IH
    by (auto simp: badovr_check_project map_of_map_set split: option.splits if_splits)
qed

lemma badconstraint_fold:
  "map_of (badconstraint (fold (check_project M ovr cs eff) lps lsat)) k = Some cm \<Longrightarrow>
     map_of (badconstraint lsat) k = Some cm \<or>
     (\<exists>lp \<in> set lps. \<exists>pp. ProjectRoot (Ident lp) = k \<and> map_of ovr k = None
        \<and> map_of cs k = Some pp \<and> map_bool eff k
        \<and> \<not> M (Constraint pp) (Version lp)
        \<and> cm = \<lparr>CM_C = Constraint pp, CM_V = Version lp\<rparr>)"
proof (induction lps arbitrary: lsat)
  case Nil
  then show ?case by simp
next
  case (Cons lp lps)
  from Cons.IH [of "check_project M ovr cs eff lp lsat"] Cons.prems
  show ?case
    by (auto simp: badconstraint_check_project map_of_map_set split: option.splits if_splits)
qed

lemma badconstraint_fold_dom:
  "map_of (badconstraint (fold (check_project M ovr cs eff) lps lsat)) k \<noteq> None \<longleftrightarrow>
     map_of (badconstraint lsat) k \<noteq> None \<or>
     (\<exists>lp \<in> set lps. \<exists>pp. ProjectRoot (Ident lp) = k \<and> map_of ovr k = None
        \<and> map_of cs k = Some pp \<and> map_bool eff k
        \<and> \<not> M (Constraint pp) (Version lp))"
proof (induction lps arbitrary: lsat)
  case Nil
  show ?case by simp
next
  case (Cons lp lps)
  show ?case
    unfolding fold_simps o_apply list.set Cons.IH
    by (auto simp: badconstraint_check_project map_of_map_set split: option.splits if_splits)
qed

lemma check_project_eff_cong:
  "map_bool eff = map_bool eff' \<Longrightarrow> check_project M ovr cs eff = check_project M ovr cs eff'"
  by (intro ext) (simp add: check_project_def Let_def split: option.splits)

lemma fold_check_project_mismatches:
  "badovr lsat = badovr lsat' \<Longrightarrow> badconstraint lsat = badconstraint lsat' \<Longrightarrow>
   badovr (fold (check_project M ovr cs eff) lps lsat) =
     badovr (fold (check_project M ovr cs eff) lps lsat') \<and>
   badconstraint (fold (check_project M ovr cs eff) lps lsat) =
     badconstraint (fold (check_project M ovr cs eff) lps lsat')"
proof (induction lps arbitrary: lsat lsat')
  case Nil
  then show ?case by simp
next
  case (Cons lp lps)
  have "badovr (check_project M ovr cs eff lp lsat) = badovr (check_project M ovr cs eff lp lsat')"
    and "badconstraint (check_project M ovr cs eff lp lsat) =
         badconstraint (check_project M ovr cs eff lp lsat')"
    using Cons.prems
    by (simp_all add: badovr_check_project badconstraint_check_project split: option.splits)
  from Cons.IH [OF this] show ?case by simp
qed

lemma LockSatisfiesInputs_mismatches:
  assumes "LockSatisfiesInputs M ord (Some lk) (Some mf) rpt = Inr ls"
  defines "checked \<equiv>
     fold (check_project M (Overrides mf) (DependencyConstraints mf)
             (eff_of ord mf (input_imports ord (rpt (IgnoredPackages mf)) (RequiredPackages mf))))
       (Projects lk)
       \<lparr>nolock = False, missingPkgs = [], excessPkgs = [],
        badovr = map_make, badconstraint = map_make\<rparr>"
  shows "badovr ls = badovr checked" and "badconstraint ls = badconstraint checked"
proof -
  from LockSatisfiesInputs_present [OF assms(1)] obtain pd where
    "ls = fold (check_project M (Overrides mf) (DependencyConstraints mf)
                    (eff_of ord mf (input_imports ord (rpt (IgnoredPackages mf)) (RequiredPackages mf))))
               (Projects lk)
               (fold collect_diff (range_entries (ord_pkgDiff ord) pd)
                  \<lparr>nolock = False, missingPkgs = [], excessPkgs = [],
                   badovr = map_make, badconstraint = map_make\<rparr>)"
    by blast
  then show "badovr ls = badovr checked" and "badconstraint ls = badconstraint checked"
    unfolding checked_def
    by (simp_all add: fold_collect_diff fold_check_project_mismatches [THEN conjunct1]
        fold_check_project_mismatches [THEN conjunct2])
qed

lemma input_imports_required:
  "fst ` set (input_imports ord (rpt (IgnoredPackages mf)) (RequiredPackages mf)) =
     required_imports mf rpt"
  using input_imports_keys [of ord "rpt (IgnoredPackages mf)" "RequiredPackages mf"]
  by (simp add: required_imports_def)

lemma empty_lookup: "map_of (map_make :: ('k, 'v) gomap) k = None"
  by (simp add: map_make_def)

lemma unmatched_override_iff:
  assumes "LockSatisfiesInputs M ord (Some lk) (Some mf) rpt = Inr ls"
  shows "map_of (badovr ls) k \<noteq> None \<longleftrightarrow>
     (\<exists>lp \<in> set (Projects lk). \<exists>pp. ProjectRoot (Ident lp) = k
        \<and> map_of (Overrides mf) k = Some pp \<and> \<not> M (Constraint pp) (Version lp))"
  unfolding LockSatisfiesInputs_mismatches(1) [OF assms] badovr_fold_dom
  by (simp add: empty_lookup)

lemma unmatched_override_value:
  assumes "LockSatisfiesInputs M ord (Some lk) (Some mf) rpt = Inr ls"
    and "map_of (badovr ls) k = Some cm"
  shows "\<exists>lp \<in> set (Projects lk). \<exists>pp. ProjectRoot (Ident lp) = k
        \<and> map_of (Overrides mf) k = Some pp \<and> \<not> M (Constraint pp) (Version lp)
        \<and> cm = \<lparr>CM_C = Constraint pp, CM_V = Version lp\<rparr>"
  using badovr_fold [OF assms(2) [unfolded LockSatisfiesInputs_mismatches(1) [OF assms(1)]]]
  by (simp add: empty_lookup)

lemma unmatched_constraint_iff:
  assumes "LockSatisfiesInputs M ord (Some lk) (Some mf) rpt = Inr ls"
  shows "map_of (badconstraint ls) k \<noteq> None \<longleftrightarrow>
     (\<exists>lp \<in> set (Projects lk). \<exists>pp. ProjectRoot (Ident lp) = k
        \<and> map_of (Overrides mf) k = None \<and> map_of (DependencyConstraints mf) k = Some pp
        \<and> (\<exists>imp \<in> required_imports mf rpt.
              longest_root_prefix (fst ` set (DependencyConstraints mf)) imp k)
        \<and> \<not> M (Constraint pp) (Version lp))"
  unfolding LockSatisfiesInputs_mismatches(2) [OF assms] badconstraint_fold_dom
  by (simp add: empty_lookup eff_of_iff input_imports_required)


lemma pick_order_map: "map f (pick_order ns xs) = pick_order ns (map f xs)"
proof (induction ns arbitrary: xs)
  case Nil
  show ?case by simp
next
  case (Cons n ns)
  show ?case
  proof (cases "xs = []")
    case True
    then show ?thesis by simp
  next
    case False
    then have "n mod length xs < length xs" by simp
    with False show ?thesis
      by (simp add: Let_def Cons.IH take_map drop_map)
  qed
qed

lemma range_keys_map_set:
  assumes "k \<in> fst ` set m"
  shows "range_keys ns (map_set k v m) = range_keys ns m"
proof -
  have "k \<in> fst ` set (AList.clearjunk m)" using assms by (simp add: dom_clearjunk)
  then have "map fst (AList.update k v (AList.clearjunk m)) = map fst (AList.clearjunk m)"
    by (simp add: update_keys)
  then show ?thesis
    by (simp add: range_keys_def range_entries_def map_entries_def map_set_def
        clearjunk_update pick_order_map)
qed

lemma check_project_shadowed:
  assumes "map_of ovr pr \<noteq> None"
  shows "check_project M ovr (map_set pr pc cs) eff = check_project M ovr cs eff"
proof (intro ext)
  fix lp and lsat :: "('a, 'b) LockSatisfaction"
  show "check_project M ovr (map_set pr pc cs) eff lp lsat = check_project M ovr cs eff lp lsat"
    using assms
    by (cases "ProjectRoot (Ident lp) = pr")
      (auto simp: check_project_def Let_def map_of_map_set split: option.splits)
qed

lemma constraint_value_unread:
  assumes "map_of (Overrides mf) pr \<noteq> None" and "map_of (DependencyConstraints mf) pr \<noteq> None"
  shows "LockSatisfiesInputs M ord l
           (Some (mf\<lparr>DependencyConstraints := map_set pr pc (DependencyConstraints mf)\<rparr>)) rpt =
         LockSatisfiesInputs M ord l (Some mf) rpt"
proof -
  have "pr \<in> fst ` set (DependencyConstraints mf)"
    using assms(2) by (simp add: map_of_eq_None_iff)
  then show ?thesis
    by (cases l)
      (simp_all add: LockSatisfiesInputs_def findEffectualConstraints_def Let_def
        range_keys_map_set check_project_shadowed [OF assms(1)] split: prod.splits)
qed

text \<open>
  What the code does guarantee: a root that is the string prefix of no required
  import, or that is not the longest declared root prefix of any, is not recorded.
\<close>

lemma string_prefix_ineffectual:
  assumes "LockSatisfiesInputs Matches ord (Some lk) (Some mf) rpt = Inr ls"
  shows "((\<forall>imp \<in> required_imports mf rpt. \<not> prefix pr imp) \<longrightarrow>
            map_of (UnmatchedConstraints ls) pr = None)
       \<and> ((\<forall>imp \<in> required_imports mf rpt.
               \<not> longest_root_prefix (fst ` set (DependencyConstraints mf)) imp pr) \<longrightarrow>
            map_of (UnmatchedConstraints ls) pr = None)"
  using unmatched_constraint_iff [OF assms, of pr]
  by (auto simp: UnmatchedConstraints_def longest_root_prefix_def)

text \<open>With a lock and a manifest, the call always returns a result.\<close>

lemma LockSatisfiesInputs_returns:
  "\<exists>ls. LockSatisfiesInputs M ord (Some lk) (Some mf) rpt = Inr ls"
  by (simp add: LockSatisfiesInputs_def findEffectualConstraints_def Let_def split: prod.splits)

section \<open>The claims\<close>

text \<open>
  C1. Whenever \<open>LockSatisfiesInputs\<close> returns a result, \<open>Passed\<close> holds of it exactly
  when the lock was present (the no-lock flag, which is set exactly for an absent
  lock, is unset), no import is missing, no import is in excess, and both mismatch
  maps are empty.
\<close>

theorem C1_passed:
  assumes "LockSatisfiesInputs Matches ord l m rpt = Inr ls"
  shows "(nolock ls \<longleftrightarrow> l = None) \<and>
         (Passed ls \<longleftrightarrow>
            l \<noteq> None \<and> set (MissingImports ls) = {} \<and> set (ExcessImports ls) = {}
            \<and> map_of (UnmatchedOverrides ls) = Map.empty
            \<and> map_of (UnmatchedConstraints ls) = Map.empty)"
proof -
  have n: "nolock ls \<longleftrightarrow> l = None"
  proof (cases l)
    case None
    with assms show ?thesis by (auto simp: LockSatisfiesInputs_def)
  next
    case (Some lk)
    with assms LockSatisfiesInputs_Inr_cases [OF assms] obtain mf where "m = Some mf" by auto
    with assms Some LockSatisfiesInputs_diff(4) [of Matches ord lk mf rpt ls] show ?thesis by simp
  qed
  then show ?thesis
    by (simp add: Passed_iff MissingImports_def ExcessImports_def UnmatchedOverrides_def
        UnmatchedConstraints_def)
qed

theorem C1_passed_witness:
  "LockSatisfiesInputs at_least ord0 (Some lock_y) (Some manifest_y) tree_ab = Inr
     \<lparr>nolock = False, missingPkgs = [], excessPkgs = [], badovr = [], badconstraint = []\<rparr>
   \<and> Passed (\<lparr>nolock = False, missingPkgs = [], excessPkgs = [], badovr = [],
                badconstraint = []\<rparr> :: (nat, nat) LockSatisfaction)"
proof -
  have run: "LockSatisfiesInputs at_least ord0 (Some lock_y) (Some manifest_y) tree_ab = Inr
     \<lparr>nolock = False, missingPkgs = [], excessPkgs = [], badovr = [], badconstraint = []\<rparr>"
    by code_simp
  from C1_passed [OF run] run show ?thesis
    by (simp add: MissingImports_def ExcessImports_def UnmatchedOverrides_def
        UnmatchedConstraints_def)
qed

text \<open>
  C2. For a call that returns with a lock and a manifest, the missing imports are,
  as a set, the required imports minus the lock's \<open>InputImports\<close>, and the excess
  imports are the \<open>InputImports\<close> minus the required imports. So no import path is in
  both outputs, and a path that is required and recorded is in neither.
\<close>

theorem C2_import_diff:
  assumes "LockSatisfiesInputs Matches ord (Some lk) (Some mf) rpt = Inr ls"
  shows "set (MissingImports ls) = required_imports mf rpt - set (InputImports lk)
       \<and> set (ExcessImports ls) = set (InputImports lk) - required_imports mf rpt
       \<and> set (MissingImports ls) \<inter> set (ExcessImports ls) = {}
       \<and> (\<forall>ip. ip \<in> required_imports mf rpt \<and> ip \<in> set (InputImports lk) \<longrightarrow>
             ip \<notin> set (MissingImports ls) \<and> ip \<notin> set (ExcessImports ls))"
  using LockSatisfiesInputs_diff(1,2) [OF assms]
  by (auto simp: MissingImports_def ExcessImports_def)

theorem C2_import_diff_witness:
  "LockSatisfiesInputs at_least ord1 (Some lock_xy) (Some manifest_xy) tree_xy = Inr
     \<lparr>nolock = False, missingPkgs = [''x/p'', ''c'', ''w/q'', ''y/sub''],
          excessPkgs = [''d'', ''b''], badovr = [(''x'', \<lparr>CM_C = 2, CM_V = 1\<rparr>)],
          badconstraint = [(''y'', \<lparr>CM_C = 3, CM_V = 2\<rparr>)]\<rparr>
   \<and> required_imports manifest_xy tree_xy - set (InputImports lock_xy) =
       {''x/p'', ''c'', ''w/q'', ''y/sub''}
   \<and> set (InputImports lock_xy) - required_imports manifest_xy tree_xy = {''d'', ''b''}"
proof -
  have run: "LockSatisfiesInputs at_least ord1 (Some lock_xy) (Some manifest_xy) tree_xy = Inr
     \<lparr>nolock = False, missingPkgs = [''x/p'', ''c'', ''w/q'', ''y/sub''],
          excessPkgs = [''d'', ''b''], badovr = [(''x'', \<lparr>CM_C = 2, CM_V = 1\<rparr>)],
          badconstraint = [(''y'', \<lparr>CM_C = 3, CM_V = 2\<rparr>)]\<rparr>"
    by code_simp
  from C2_import_diff [OF run] run show ?thesis
    by (simp add: MissingImports_def ExcessImports_def)
qed

text \<open>
  C3. For a project root with an override rule, in a call that returns with a lock
  and a manifest: the root is never in the bad-constraints map, whether the
  override matches or not; the normal constraint of that root is not read, since
  putting any other constraint in its place leaves the result as it is; and when
  the override fails on the version of a locked project of that root, the
  bad-overrides map records for the root the override and a version that it does
  not match.
\<close>

theorem C3_override_shadows:
  assumes "LockSatisfiesInputs Matches ord (Some lk) (Some mf) rpt = Inr ls"
    and "map_of (Overrides mf) pr = Some po"
  shows "map_of (UnmatchedConstraints ls) pr = None
     \<and> (map_of (DependencyConstraints mf) pr \<noteq> None \<longrightarrow>
          (\<forall>pc. LockSatisfiesInputs Matches ord (Some lk)
                  (Some (mf\<lparr>DependencyConstraints := map_set pr pc (DependencyConstraints mf)\<rparr>))
                  rpt = Inr ls))
     \<and> (\<forall>lp \<in> set (Projects lk).
          ProjectRoot (Ident lp) = pr \<and> \<not> Matches (Constraint po) (Version lp) \<longrightarrow>
          (\<exists>v. map_of (UnmatchedOverrides ls) pr = Some \<lparr>CM_C = Constraint po, CM_V = v\<rparr>
               \<and> \<not> Matches (Constraint po) v))"
proof (intro conjI)
  show "map_of (UnmatchedConstraints ls) pr = None"
    using unmatched_constraint_iff [OF assms(1), of pr] assms(2)
    by (simp add: UnmatchedConstraints_def)
  show "map_of (DependencyConstraints mf) pr \<noteq> None \<longrightarrow>
          (\<forall>pc. LockSatisfiesInputs Matches ord (Some lk)
                  (Some (mf\<lparr>DependencyConstraints := map_set pr pc (DependencyConstraints mf)\<rparr>))
                  rpt = Inr ls)"
    using constraint_value_unread [of mf pr Matches ord "Some lk" _ rpt] assms by simp
  show "\<forall>lp \<in> set (Projects lk).
          ProjectRoot (Ident lp) = pr \<and> \<not> Matches (Constraint po) (Version lp) \<longrightarrow>
          (\<exists>v. map_of (UnmatchedOverrides ls) pr = Some \<lparr>CM_C = Constraint po, CM_V = v\<rparr>
               \<and> \<not> Matches (Constraint po) v)"
  proof (intro ballI impI)
    fix lp
    assume lp: "lp \<in> set (Projects lk)"
      and "ProjectRoot (Ident lp) = pr \<and> \<not> Matches (Constraint po) (Version lp)"
    with assms(2) have "map_of (badovr ls) pr \<noteq> None"
      unfolding unmatched_override_iff [OF assms(1)] by blast
    then obtain cm where cm: "map_of (badovr ls) pr = Some cm" by blast
    from unmatched_override_value [OF assms(1) cm] assms(2) cm
    show "\<exists>v. map_of (UnmatchedOverrides ls) pr = Some \<lparr>CM_C = Constraint po, CM_V = v\<rparr>
               \<and> \<not> Matches (Constraint po) v"
      by (auto simp: UnmatchedOverrides_def)
  qed
qed

theorem C3_override_shadows_witness:
  "LockSatisfiesInputs at_least ord0 (Some lock_xy) (Some manifest_xy) tree_xy = Inr
     \<lparr>nolock = False, missingPkgs = [''c'', ''x/p'', ''y/sub'', ''w/q''],
          excessPkgs = [''b'', ''d''], badovr = [(''x'', \<lparr>CM_C = 2, CM_V = 1\<rparr>)],
          badconstraint = [(''y'', \<lparr>CM_C = 3, CM_V = 2\<rparr>)]\<rparr>
   \<and> map_of (Overrides manifest_xy) ''x'' = Some \<lparr>Constraint = 2\<rparr>
   \<and> map_of (DependencyConstraints manifest_xy) ''x'' = Some \<lparr>Constraint = 1\<rparr>
   \<and> LockSatisfiesInputs at_least ord0 (Some lock_xy)
        (Some (manifest_xy\<lparr>DependencyConstraints :=
                 map_set ''x'' \<lparr>Constraint = 5\<rparr> (DependencyConstraints manifest_xy)\<rparr>))
        tree_xy = Inr
     \<lparr>nolock = False, missingPkgs = [''c'', ''x/p'', ''y/sub'', ''w/q''],
          excessPkgs = [''b'', ''d''], badovr = [(''x'', \<lparr>CM_C = 2, CM_V = 1\<rparr>)],
          badconstraint = [(''y'', \<lparr>CM_C = 3, CM_V = 2\<rparr>)]\<rparr>"
proof -
  have run: "LockSatisfiesInputs at_least ord0 (Some lock_xy) (Some manifest_xy) tree_xy = Inr
     \<lparr>nolock = False, missingPkgs = [''c'', ''x/p'', ''y/sub'', ''w/q''],
          excessPkgs = [''b'', ''d''], badovr = [(''x'', \<lparr>CM_C = 2, CM_V = 1\<rparr>)],
          badconstraint = [(''y'', \<lparr>CM_C = 3, CM_V = 2\<rparr>)]\<rparr>"
    by code_simp
  have ovr: "map_of (Overrides manifest_xy) ''x'' = Some \<lparr>Constraint = 2\<rparr>"
    by (simp add: manifest_xy_def)
  have dc: "map_of (DependencyConstraints manifest_xy) ''x'' = Some \<lparr>Constraint = 1\<rparr>"
    by (simp add: manifest_xy_def)
  from C3_override_shadows [OF run ovr] run ovr dc show ?thesis
    by simp
qed

text \<open>
  C4. A project root with a constraint and no required import path under it must
  never be in the bad-constraints map. The code breaks this: the radix tree of
  lines 96 and 100 matches strings, not path segments, so the required import
  \<open>foobar\<close>, which is not under the root \<open>foo\<close>, marks \<open>foo\<close> effectual, and line 206
  records the failing constraint on the locked \<open>foo\<close>. The comment of line 94 names
  the defect.
\<close>

theorem C4_foobar_marks_foo:
  "required_imports manifest_foo tree_foobar = {''foobar''}
   \<and> \<not> under_root ''foo'' ''foobar''
   \<and> map_of (DependencyConstraints manifest_foo) ''foo'' = Some \<lparr>Constraint = 3\<rparr>
   \<and> findEffectualConstraints ord0 (Some manifest_foo)
        (input_imports ord0 (tree_foobar None) (RequiredPackages manifest_foo))
      = Inr [(''foo'', True)]
   \<and> LockSatisfiesInputs at_least ord0 (Some lock_foo) (Some manifest_foo) tree_foobar = Inr
        \<lparr>nolock = False, missingPkgs = [], excessPkgs = [], badovr = [],
         badconstraint = [(''foo'', \<lparr>CM_C = 3, CM_V = 2\<rparr>)]\<rparr>
   \<and> map_of (UnmatchedConstraints
        (\<lparr>nolock = False, missingPkgs = [], excessPkgs = [], badovr = [],
          badconstraint = [(''foo'', \<lparr>CM_C = 3, CM_V = 2\<rparr>)]\<rparr>
           :: (nat, nat) LockSatisfaction)) ''foo''
      = Some \<lparr>CM_C = 3, CM_V = 2\<rparr>"
proof -
  have req: "required_imports manifest_foo tree_foobar = {''foobar''}"
    by (auto simp: required_imports_def manifest_foo_def tree_foobar_def)
  have eff: "findEffectualConstraints ord0 (Some manifest_foo)
        (input_imports ord0 (tree_foobar None) (RequiredPackages manifest_foo))
      = Inr [(''foo'', True)]"
    by code_simp
  have run: "LockSatisfiesInputs at_least ord0 (Some lock_foo) (Some manifest_foo) tree_foobar = Inr
        \<lparr>nolock = False, missingPkgs = [], excessPkgs = [], badovr = [],
         badconstraint = [(''foo'', \<lparr>CM_C = 3, CM_V = 2\<rparr>)]\<rparr>"
    by code_simp
  from req eff run show ?thesis
    by (simp add: under_root_def manifest_foo_def UnmatchedConstraints_def)
qed

text \<open>
  C5. When the lock is absent (\<open>nil\<close>), whatever the manifest and the package tree,
  the result has only the no-lock flag set: no missing and no excess imports, no
  entry in either mismatch map; and \<open>Passed\<close> is false on it.
\<close>

theorem C5_absent_lock:
  "LockSatisfiesInputs Matches ord None m rpt =
     Inr \<lparr>nolock = True, missingPkgs = [], excessPkgs = [], badovr = [], badconstraint = []\<rparr>
   \<and> \<not> Passed \<lparr>nolock = True, missingPkgs = [], excessPkgs = [], badovr = [], badconstraint = []\<rparr>"
  by (simp add: LockSatisfiesInputs_def Passed_def map_make_def)

text \<open>
  C6. \<open>LockSatisfiesInputs\<close> on a present lock and an absent (\<open>nil\<close>) manifest: the
  call does not return a result. The guard of lines 123 to 126 covers
  \<open>IgnoredPackages\<close> and \<open>RequiredPackages\<close> only; line 188 passes the \<open>nil\<close>
  manifest to \<open>findEffectualConstraints\<close>, which calls \<open>m.DependencyConstraints()\<close>
  on it.
\<close>

theorem C6_nil_manifest_panics:
  "LockSatisfiesInputs at_least ord0 (Some lock_y) (None :: (nat, unit) RootManifest option) tree_ab
     = Inl NilPointerDereference"
  by (rule LockSatisfiesInputs_nil_manifest)




text \<open>
  C8. Two runs on the same lock, manifest and package tree, whatever order each of
  them ranges over its maps in, either both fail in the same way or both return,
  and then the results agree on the no-lock flag, on the missing and the excess
  imports as sets, and on both mismatch maps.
\<close>

theorem C8_order_independent:
  "map_sum id ls_view (LockSatisfiesInputs Matches ord l m rpt) =
   map_sum id ls_view (LockSatisfiesInputs Matches ord' l m rpt)"
proof (cases l)
  case None
  then show ?thesis by (simp add: LockSatisfiesInputs_def)
next
  case (Some lk)
  show ?thesis
  proof (cases m)
    case None
    with Some show ?thesis by (simp add: LockSatisfiesInputs_nil_manifest)
  next
    case (Some mf)
    obtain ls where ls: "LockSatisfiesInputs Matches ord (Some lk) (Some mf) rpt = Inr ls"
      using LockSatisfiesInputs_returns by blast
    obtain ls' where ls': "LockSatisfiesInputs Matches ord' (Some lk) (Some mf) rpt = Inr ls'"
      using LockSatisfiesInputs_returns by blast
    have "map_bool (eff_of ord mf (input_imports ord (rpt (IgnoredPackages mf)) (RequiredPackages mf)))
        = map_bool (eff_of ord' mf (input_imports ord' (rpt (IgnoredPackages mf)) (RequiredPackages mf)))"
      by (intro ext) (simp add: eff_of_iff input_imports_required)
    then have "check_project Matches (Overrides mf) (DependencyConstraints mf)
          (eff_of ord mf (input_imports ord (rpt (IgnoredPackages mf)) (RequiredPackages mf)))
        = check_project Matches (Overrides mf) (DependencyConstraints mf)
          (eff_of ord' mf (input_imports ord' (rpt (IgnoredPackages mf)) (RequiredPackages mf)))"
      by (rule check_project_eff_cong)
    then have "badovr ls = badovr ls'" and "badconstraint ls = badconstraint ls'"
      unfolding LockSatisfiesInputs_mismatches [OF ls] LockSatisfiesInputs_mismatches [OF ls']
      by simp_all
    then have "ls_view ls = ls_view ls'"
      using LockSatisfiesInputs_diff(1,2,4) [OF ls] LockSatisfiesInputs_diff(1,2,4) [OF ls']
      by (simp add: ls_view_def)
    with ls ls' Some \<open>l = Some lk\<close> show ?thesis by simp
  qed
qed

text \<open>
  C9. In a call that returns with a lock and a manifest, a project root that is
  the root of no locked project has no entry in the bad-overrides map nor in the
  bad-constraints map, whatever rules the manifest has for it.
\<close>

theorem C9_unlocked_roots:
  assumes "LockSatisfiesInputs Matches ord (Some lk) (Some mf) rpt = Inr ls"
    and "pr \<notin> (\<lambda>lp. ProjectRoot (Ident lp)) ` set (Projects lk)"
  shows "map_of (UnmatchedOverrides ls) pr = None \<and> map_of (UnmatchedConstraints ls) pr = None"
  using unmatched_override_iff [OF assms(1), of pr] unmatched_constraint_iff [OF assms(1), of pr]
    assms(2)
  by (auto simp: UnmatchedOverrides_def UnmatchedConstraints_def)

theorem C9_unlocked_roots_witness:
  "LockSatisfiesInputs at_least ord0 (Some lock_xy) (Some manifest_xy) tree_xy = Inr
     \<lparr>nolock = False, missingPkgs = [''c'', ''x/p'', ''y/sub'', ''w/q''],
          excessPkgs = [''b'', ''d''], badovr = [(''x'', \<lparr>CM_C = 2, CM_V = 1\<rparr>)],
          badconstraint = [(''y'', \<lparr>CM_C = 3, CM_V = 2\<rparr>)]\<rparr>
   \<and> map_of (Overrides manifest_xy) ''z'' = Some \<lparr>Constraint = 9\<rparr>
   \<and> ''z'' \<notin> (\<lambda>lp. ProjectRoot (Ident lp)) ` set (Projects lock_xy)
   \<and> map_of (DependencyConstraints manifest_xy) ''w'' = Some \<lparr>Constraint = 7\<rparr>
   \<and> ''w'' \<notin> (\<lambda>lp. ProjectRoot (Ident lp)) ` set (Projects lock_xy)"
proof -
  have run: "LockSatisfiesInputs at_least ord0 (Some lock_xy) (Some manifest_xy) tree_xy = Inr
     \<lparr>nolock = False, missingPkgs = [''c'', ''x/p'', ''y/sub'', ''w/q''],
          excessPkgs = [''b'', ''d''], badovr = [(''x'', \<lparr>CM_C = 2, CM_V = 1\<rparr>)],
          badconstraint = [(''y'', \<lparr>CM_C = 3, CM_V = 2\<rparr>)]\<rparr>"
    by code_simp
  have z: "''z'' \<notin> (\<lambda>lp. ProjectRoot (Ident lp)) ` set (Projects lock_xy)"
    and w: "''w'' \<notin> (\<lambda>lp. ProjectRoot (Ident lp)) ` set (Projects lock_xy)"
    by (simp_all add: lock_xy_def)
  from C9_unlocked_roots [OF run z] C9_unlocked_roots [OF run w] run z w show ?thesis
    by (simp add: manifest_xy_def)
qed

text \<open>
  C10. In a call that returns with a lock and a manifest, the missing imports
  followed by the excess imports have no import path twice, however often a path
  occurs in \<open>InputImports\<close>, in the reachability output or in \<open>RequiredPackages\<close>.
\<close>

theorem C10_no_duplicates:
  assumes "LockSatisfiesInputs Matches ord (Some lk) (Some mf) rpt = Inr ls"
  shows "distinct (MissingImports ls @ ExcessImports ls)"
  using LockSatisfiesInputs_diff(3) [OF assms]
  by (simp add: MissingImports_def ExcessImports_def)

theorem C10_no_duplicates_witness:
  "LockSatisfiesInputs at_least ord1 (Some lock_xy) (Some manifest_xy) tree_xy = Inr
     \<lparr>nolock = False, missingPkgs = [''x/p'', ''c'', ''w/q'', ''y/sub''],
          excessPkgs = [''d'', ''b''], badovr = [(''x'', \<lparr>CM_C = 2, CM_V = 1\<rparr>)],
          badconstraint = [(''y'', \<lparr>CM_C = 3, CM_V = 2\<rparr>)]\<rparr>
   \<and> InputImports lock_xy = [''a'', ''b'', ''d'', ''b'']
   \<and> tree_xy None = [''a'', ''c'', ''x/p'', ''c'']
   \<and> distinct ([''x/p'', ''c'', ''w/q'', ''y/sub''] @ [''d'', ''b''])"
proof -
  have run: "LockSatisfiesInputs at_least ord1 (Some lock_xy) (Some manifest_xy) tree_xy = Inr
     \<lparr>nolock = False, missingPkgs = [''x/p'', ''c'', ''w/q'', ''y/sub''],
          excessPkgs = [''d'', ''b''], badovr = [(''x'', \<lparr>CM_C = 2, CM_V = 1\<rparr>)],
          badconstraint = [(''y'', \<lparr>CM_C = 3, CM_V = 2\<rparr>)]\<rparr>"
    by code_simp
  from C10_no_duplicates [OF run] run show ?thesis
    by (simp add: lock_xy_def tree_xy_def)
qed

end
